theory Spec2Isabelle
  imports Main "HOL-Library.Char_ord" "HOL-Library.List_Lexorder" "HOL-Library.Multiset"
begin

section \<open>The dotenv parser of nyxstack/dotenv, embedded in HOL\<close>

text \<open>
  Go strings are byte sequences; a byte is a \<^typ>\<open>char\<close> and a string a \<^typ>\<open>string\<close>.
  Go's \<open>int\<close> cursor, line and column are natural numbers here: they start at 0 or 1 and
  are only ever incremented, by at most the length of the input.
\<close>

abbreviation (input) NUL :: char where "NUL \<equiv> CHR 0x00"
abbreviation (input) TAB :: char where "TAB \<equiv> CHR 0x09"
abbreviation (input) LF :: char where "LF \<equiv> CHR 0x0A"
abbreviation (input) CR :: char where "CR \<equiv> CHR 0x0D"
abbreviation (input) SPC :: char where "SPC \<equiv> CHR 0x20"
abbreviation (input) DQUOTE :: char where "DQUOTE \<equiv> CHR 0x22"
abbreviation (input) HASH :: char where "HASH \<equiv> CHR 0x23"
abbreviation (input) DOLLAR :: char where "DOLLAR \<equiv> CHR 0x24"
abbreviation (input) SQUOTE :: char where "SQUOTE \<equiv> CHR 0x27"
abbreviation (input) EQUALS :: char where "EQUALS \<equiv> CHR 0x3D"
abbreviation (input) BSLASH :: char where "BSLASH \<equiv> CHR 0x5C"
abbreviation (input) LBRACE :: char where "LBRACE \<equiv> CHR 0x7B"
abbreviation (input) RBRACE :: char where "RBRACE \<equiv> CHR 0x7D"

subsection \<open>tokenizer.go: the Tokenizer\<close>

text \<open>
  The struct \<open>Tokenizer\<close>. The field \<open>length\<close> of the source is \<open>length_t\<close> here.
\<close>

record Tokenizer =
  content :: string
  pos :: nat
  line :: nat
  col :: nat
  length_t :: nat
  exportMode :: bool

text \<open>
  The errors of the source are \<open>fmt.Errorf\<close> messages that embed the tokenizer's current
  line; each message is a constructor that carries that line:
  \<^item> \<open>InvalidKey\<close>: "invalid key name at line %d: keys must start with letter or underscore"
  \<^item> \<open>MissingVariableName\<close>: "expected variable name at line %d"
  \<^item> \<open>MissingAssignment\<close>: "expected '=' after variable name at line %d"
  \<^item> \<open>UnexpectedEOFAfterEscape\<close>: "unexpected end of file after escape at line %d"
  \<^item> \<open>UnterminatedString\<close>: "unterminated quoted string at line %d"
\<close>

datatype error =
    InvalidKey nat
  | MissingVariableName nat
  | MissingAssignment nat
  | UnexpectedEOFAfterEscape nat
  | UnterminatedString nat

fun errorLine :: "error \<Rightarrow> nat" where
  "errorLine (InvalidKey n) = n"
| "errorLine (MissingVariableName n) = n"
| "errorLine (MissingAssignment n) = n"
| "errorLine (UnexpectedEOFAfterEscape n) = n"
| "errorLine (UnterminatedString n) = n"

definition NewTokenizer :: "string \<Rightarrow> Tokenizer" where
  "NewTokenizer c =
     \<lparr>content = c, pos = 0, line = 1, col = 1, length_t = length c, exportMode = True\<rparr>"

definition peek :: "Tokenizer \<Rightarrow> char" where
  "peek t = (if pos t \<ge> length_t t then NUL else content t ! pos t)"

definition peekNext :: "Tokenizer \<Rightarrow> char" where
  "peekNext t = (if pos t + 1 \<ge> length_t t then NUL else content t ! (pos t + 1))"

text \<open>\<open>advance\<close> returns the byte read and the tokenizer it leaves behind.\<close>

definition advance :: "Tokenizer \<Rightarrow> char \<times> Tokenizer" where
  "advance t =
     (if pos t \<ge> length_t t then (NUL, t)
      else
        let ch = content t ! pos t;
            t1 = t\<lparr>pos := pos t + 1\<rparr>
        in if ch = LF then (ch, t1\<lparr>line := line t1 + 1, col := 1\<rparr>)
           else (ch, t1\<lparr>col := col t1 + 1\<rparr>))"

lemma advance_measure:
  "pos t < length_t t \<Longrightarrow>
   length_t (snd (advance t)) - pos (snd (advance t)) < length_t t - pos t"
  by (auto simp: advance_def Let_def)

function skipWhitespace :: "Tokenizer \<Rightarrow> Tokenizer" where
  "skipWhitespace t =
     (if pos t < length_t t \<and> (peek t = SPC \<or> peek t = TAB)
      then skipWhitespace (snd (advance t))
      else t)"
  by pat_completeness auto
termination
  by (relation "measure (\<lambda>t. length_t t - pos t)") (auto simp: advance_measure)

declare skipWhitespace.simps [simp del]

text \<open>The first loop of \<open>skipToNextLine\<close>, then the conditional consumption of the line feed.\<close>

function skipToLF :: "Tokenizer \<Rightarrow> Tokenizer" where
  "skipToLF t =
     (if pos t < length_t t \<and> peek t \<noteq> LF
      then skipToLF (snd (advance t))
      else t)"
  by pat_completeness auto
termination
  by (relation "measure (\<lambda>t. length_t t - pos t)") (auto simp: advance_measure)

declare skipToLF.simps [simp del]

definition skipToNextLine :: "Tokenizer \<Rightarrow> Tokenizer" where
  "skipToNextLine t =
     (let t1 = skipToLF t
      in if pos t1 < length_t t1 then snd (advance t1) else t1)"

definition isValidKeyChar :: "char \<Rightarrow> bool" where
  "isValidKeyChar ch \<longleftrightarrow>
     (ch \<ge> CHR ''A'' \<and> ch \<le> CHR ''Z'') \<or> (ch \<ge> CHR ''a'' \<and> ch \<le> CHR ''z'') \<or>
     (ch \<ge> CHR ''0'' \<and> ch \<le> CHR ''9'') \<or> ch = CHR ''_''"

definition isValidKeyStart :: "char \<Rightarrow> bool" where
  "isValidKeyStart ch \<longleftrightarrow>
     (ch \<ge> CHR ''A'' \<and> ch \<le> CHR ''Z'') \<or> (ch \<ge> CHR ''a'' \<and> ch \<le> CHR ''z'') \<or> ch = CHR ''_''"

text \<open>The Go slice expression \<open>s[i:j]\<close>.\<close>

definition slice :: "string \<Rightarrow> nat \<Rightarrow> nat \<Rightarrow> string" where
  "slice s i j = take (j - i) (drop i s)"

function parseKey_loop :: "Tokenizer \<Rightarrow> Tokenizer" where
  "parseKey_loop t =
     (if pos t < length_t t \<and> isValidKeyChar (peek t)
      then parseKey_loop (snd (advance t))
      else t)"
  by pat_completeness auto
termination
  by (relation "measure (\<lambda>t. length_t t - pos t)") (auto simp: advance_measure)

declare parseKey_loop.simps [simp del]

definition parseKey :: "Tokenizer \<Rightarrow> (error + string) \<times> Tokenizer" where
  "parseKey t =
     (let start = pos t
      in if \<not> isValidKeyStart (peek t) then (Inl (InvalidKey (line t)), t)
         else
           let t1 = parseKey_loop t
           in (Inr (slice (content t1) start (pos t1)), t1))"

text \<open>\<open>strings.TrimRight(s, cutset)\<close>: the trailing bytes that occur in \<open>cutset\<close> are removed.\<close>

definition TrimRight :: "string \<Rightarrow> string \<Rightarrow> string" where
  "TrimRight s cutset = rev (dropWhile (\<lambda>c. c \<in> set cutset) (rev s))"

text \<open>
  The loop of \<open>parseUnquotedValue\<close>; \<open>result\<close> is the string builder. It returns the bytes
  collected, whether it stopped at a \<open>#\<close>, and the tokenizer.
\<close>

function parseUnquotedValue_loop :: "string \<Rightarrow> Tokenizer \<Rightarrow> (string \<times> bool) \<times> Tokenizer" where
  "parseUnquotedValue_loop result t =
     (if pos t < length_t t then
        let ch = peek t
        in if ch = LF \<or> ch = CR then ((result, False), t)
           else if ch = HASH then ((result, True), t)
           else parseUnquotedValue_loop (result @ [fst (advance t)]) (snd (advance t))
      else ((result, False), t))"
  by pat_completeness auto
termination
  by (relation "measure (\<lambda>(r, t). length_t t - pos t)") (auto simp: advance_measure)

declare parseUnquotedValue_loop.simps [simp del]

definition parseUnquotedValue :: "Tokenizer \<Rightarrow> (string \<times> bool) \<times> Tokenizer" where
  "parseUnquotedValue t =
     (case parseUnquotedValue_loop [] t of
        ((result, hasComment), t1) \<Rightarrow> ((TrimRight result [SPC, TAB], hasComment), t1))"

text \<open>The \<open>switch\<close> on the escaped byte: what an escape writes to the string builder.\<close>

definition unescape :: "char \<Rightarrow> string" where
  "unescape escaped =
     (if escaped = CHR ''n'' then [LF]
      else if escaped = CHR ''t'' then [TAB]
      else if escaped = CHR ''r'' then [CR]
      else if escaped = BSLASH then [BSLASH]
      else if escaped = DQUOTE then [DQUOTE]
      else if escaped = SQUOTE then [SQUOTE]
      else [BSLASH, escaped])"

text \<open>
  The loop of \<open>parseQuotedValue\<close>, entered after the opening quote is consumed. An escape
  is only read when the quote is the double quote.
\<close>

function parseQuotedValue_loop ::
  "char \<Rightarrow> string \<Rightarrow> Tokenizer \<Rightarrow> (error + string) \<times> Tokenizer" where
  "parseQuotedValue_loop quote result t =
     (if pos t < length_t t then
        let ch = peek t
        in if ch = quote then (Inr result, snd (advance t))
           else if ch = BSLASH \<and> quote = DQUOTE then
             let t1 = snd (advance t)
             in if pos t1 \<ge> length_t t1
                then (Inl (UnexpectedEOFAfterEscape (line t1)), t1)
                else parseQuotedValue_loop quote
                       (result @ unescape (fst (advance t1))) (snd (advance t1))
           else parseQuotedValue_loop quote (result @ [fst (advance t)]) (snd (advance t))
      else (Inl (UnterminatedString (line t)), t))"
  by pat_completeness auto
termination
proof (relation "measure (\<lambda>(q, r, t). length_t t - pos t)", goal_cases)
  case 1
  show ?case by simp
next
  case (2 quote result t ch t1)
  have a: "length_t t1 - pos t1 < length_t t - pos t"
    using 2 by (simp add: advance_measure)
  have b: "length_t (snd (advance t1)) - pos (snd (advance t1)) < length_t t1 - pos t1"
    using 2 by (simp add: advance_measure)
  from a b show ?case by simp
next
  case (3 quote result t ch)
  then show ?case by (simp add: advance_measure)
qed

declare parseQuotedValue_loop.simps [simp del]

definition parseQuotedValue :: "char \<Rightarrow> Tokenizer \<Rightarrow> (error + string) \<times> Tokenizer" where
  "parseQuotedValue quote t = parseQuotedValue_loop quote [] (snd (advance t))"

subsection \<open>tokenizer.go: variable expansion\<close>

text \<open>
  The two compiled patterns of \<open>expandVariables\<close> are modelled as anchored matchers: the
  length of the match that starts at the head of the string, if there is one. The classes
  \<open>[A-Za-z_]\<close> and \<open>[A-Za-z0-9_]\<close> are those of \<open>isValidKeyStart\<close> and \<open>isValidKeyChar\<close>;
  the star is greedy, and a closing brace is not in its class, so the braced pattern
  matches exactly when the longest run of identifier bytes is followed by the brace.
\<close>

definition varPattern :: "string \<Rightarrow> nat option" where
  "varPattern s =
     (case s of
        c0 # c1 # c2 # cs \<Rightarrow>
          if c0 = DOLLAR \<and> c1 = LBRACE \<and> isValidKeyStart c2 then
            let n = length (takeWhile isValidKeyChar cs)
            in (case drop n cs of
                  [] \<Rightarrow> None
                | c # _ \<Rightarrow> if c = RBRACE then Some (n + 4) else None)
          else None
      | _ \<Rightarrow> None)"

definition simplePattern :: "string \<Rightarrow> nat option" where
  "simplePattern s =
     (case s of
        c0 # c1 # cs \<Rightarrow>
          if c0 = DOLLAR \<and> isValidKeyStart c1
          then Some (length (takeWhile isValidKeyChar cs) + 2)
          else None
      | _ \<Rightarrow> None)"

text \<open>
  \<open>regexp.ReplaceAllStringFunc\<close>: the leftmost matches, none overlapping an earlier one,
  are replaced by \<open>repl\<close> of the matched text; everything else is copied. The replacement
  is not scanned again: the scan goes on behind the match.
\<close>

function ReplaceAllStringFunc ::
  "(string \<Rightarrow> nat option) \<Rightarrow> string \<Rightarrow> (string \<Rightarrow> string) \<Rightarrow> string" where
  "ReplaceAllStringFunc re [] repl = []"
| "ReplaceAllStringFunc re (c # cs) repl =
     (case re (c # cs) of
        None \<Rightarrow> c # ReplaceAllStringFunc re cs repl
      | Some n \<Rightarrow>
          if 0 < n
          then repl (take n (c # cs)) @ ReplaceAllStringFunc re (drop n (c # cs)) repl
          else c # ReplaceAllStringFunc re cs repl)"
  by pat_completeness auto
termination
  by (relation "measure (\<lambda>(re, src, repl). length src)") auto

declare ReplaceAllStringFunc.simps [simp del]

text \<open>
  The two statements of \<open>expandVariables\<close>: the pass over the \<open>${VAR}\<close> references of the
  value, then the pass over the \<open>$VAR\<close> references of the result of the first.
\<close>

definition expandVariables_braced :: "string \<Rightarrow> (string \<rightharpoonup> string) \<Rightarrow> string" where
  "expandVariables_braced value env =
     ReplaceAllStringFunc varPattern value
       (\<lambda>match.
          let varName = slice match 2 (length match - 1)
          in case env varName of Some val \<Rightarrow> val | None \<Rightarrow> match)"

definition expandVariables_simple :: "string \<Rightarrow> (string \<rightharpoonup> string) \<Rightarrow> string" where
  "expandVariables_simple result env =
     ReplaceAllStringFunc simplePattern result
       (\<lambda>match.
          let varName = drop 1 match
          in case env varName of Some val \<Rightarrow> val | None \<Rightarrow> match)"

definition expandVariables :: "string \<Rightarrow> (string \<rightharpoonup> string) \<Rightarrow> string" where
  "expandVariables value env =
     (let result = expandVariables_braced value env;
          result = expandVariables_simple result env
      in result)"

subsection \<open>parser.go: ParseLine and Parse\<close>

text \<open>
  The struct \<open>Parser\<close> only wraps a pointer to its tokenizer, so the methods of the parser
  take and return the tokenizer. \<open>Error = None\<close> is the nil error.
\<close>

record LineResult =
  Key :: string
  Value :: string
  AllowExpansion :: bool
  Error :: "error option"

definition HasPrefix :: "string \<Rightarrow> string \<Rightarrow> bool" where
  "HasPrefix s prefix \<longleftrightarrow> take (length prefix) s = prefix"

text \<open>The result every failing branch of \<open>ParseLine\<close> returns.\<close>

definition errorResult :: "error \<Rightarrow> LineResult" where
  "errorResult err = \<lparr>Key = [], Value = [], AllowExpansion = False, Error = Some err\<rparr>"

text \<open>
  The end of \<open>ParseLine\<close>, which its three value branches share: trailing whitespace and a
  comment are skipped and the result is returned.
\<close>

definition ParseLine_finish ::
  "string \<Rightarrow> string \<Rightarrow> bool \<Rightarrow> Tokenizer \<Rightarrow> LineResult \<times> Tokenizer" where
  "ParseLine_finish key value allowExpansion t =
     (let t1 = skipWhitespace t;
          t2 = (if pos t1 < length_t t1 \<and> peek t1 = HASH then skipToNextLine t1 else t1)
      in (\<lparr>Key = key, Value = value, AllowExpansion = allowExpansion, Error = None\<rparr>, t2))"

definition ParseLine :: "Tokenizer \<Rightarrow> LineResult \<times> Tokenizer" where
  "ParseLine t0 =
     (let t1 = skipWhitespace t0
      in if pos t1 \<ge> length_t t1 \<or> peek t1 = LF \<or> peek t1 = CR \<or> peek t1 = HASH then
           (\<lparr>Key = [], Value = [], AllowExpansion = False, Error = None\<rparr>, skipToNextLine t1)
         else
           let t2 = (if exportMode t1 \<and> HasPrefix (drop (pos t1) (content t1)) ''export ''
                     then skipWhitespace (t1\<lparr>pos := pos t1 + 7, col := col t1 + 7\<rparr>)
                     else t1)
           in case parseKey t2 of
                (Inl err, t3) \<Rightarrow> (errorResult err, t3)
              | (Inr key, t3) \<Rightarrow>
                  if key = [] then (errorResult (MissingVariableName (line t3)), t3)
                  else
                    let t4 = skipWhitespace t3
                    in if peek t4 \<noteq> EQUALS
                       then (errorResult (MissingAssignment (line t4)), t4)
                       else
                         let t5 = snd (advance t4);
                             t6 = skipWhitespace t5;
                             ch = peek t6
                         in if ch = DQUOTE then
                              (case parseQuotedValue DQUOTE t6 of
                                 (Inl err, t7) \<Rightarrow> (errorResult err, t7)
                               | (Inr value, t7) \<Rightarrow> ParseLine_finish key value True t7)
                            else if ch = SQUOTE then
                              (case parseQuotedValue SQUOTE t6 of
                                 (Inl err, t7) \<Rightarrow> (errorResult err, t7)
                               | (Inr value, t7) \<Rightarrow> ParseLine_finish key value False t7)
                            else
                              (case parseUnquotedValue t6 of
                                 ((value, hasComment), t7) \<Rightarrow>
                                   ParseLine_finish key value True
                                     (if hasComment then skipToNextLine t7 else t7)))"

text \<open>
  The cursor never moves back and the text is never changed: \<open>later t t'\<close> says that \<open>t'\<close>
  is \<open>t\<close> after some bytes were consumed.
\<close>

definition later :: "Tokenizer \<Rightarrow> Tokenizer \<Rightarrow> bool" where
  "later t t' \<longleftrightarrow>
     content t' = content t \<and> length_t t' = length_t t \<and> exportMode t' = exportMode t \<and>
     pos t \<le> pos t'"

lemma later_refl [simp]: "later t t"
  by (simp add: later_def)

lemma later_trans: "later a b \<Longrightarrow> later b c \<Longrightarrow> later a c"
  by (auto simp: later_def)

lemma later_advance: "later t (snd (advance t))"
  by (auto simp: later_def advance_def Let_def)

lemma advance_pos: "pos t < length_t t \<Longrightarrow> pos (snd (advance t)) = pos t + 1"
  by (auto simp: advance_def Let_def)

lemma later_skipWhitespace: "later t (skipWhitespace t)"
proof (induction t rule: skipWhitespace.induct)
  case (1 t)
  show ?case
  proof (cases "pos t < length_t t \<and> (peek t = SPC \<or> peek t = TAB)")
    case True
    then have "skipWhitespace t = skipWhitespace (snd (advance t))"
      by (subst skipWhitespace.simps) simp
    moreover have "later (snd (advance t)) (skipWhitespace (snd (advance t)))"
      using 1 True by blast
    ultimately show ?thesis
      using later_advance [of t] later_trans by metis
  next
    case False
    then have "skipWhitespace t = t"
      by (subst skipWhitespace.simps) auto
    then show ?thesis by simp
  qed
qed

lemma later_skipToLF: "later t (skipToLF t)"
proof (induction t rule: skipToLF.induct)
  case (1 t)
  show ?case
  proof (cases "pos t < length_t t \<and> peek t \<noteq> LF")
    case True
    then have "skipToLF t = skipToLF (snd (advance t))"
      by (subst skipToLF.simps) simp
    moreover have "later (snd (advance t)) (skipToLF (snd (advance t)))"
      using 1 True by blast
    ultimately show ?thesis
      using later_advance [of t] later_trans by metis
  next
    case False
    then have "skipToLF t = t"
      by (subst skipToLF.simps) auto
    then show ?thesis by simp
  qed
qed

lemma later_skipToNextLine: "later t (skipToNextLine t)"
  unfolding skipToNextLine_def Let_def
  using later_skipToLF [of t] later_advance [of "skipToLF t"] later_trans by auto

lemma skipToLF_stops: "pos (skipToLF t) < length_t (skipToLF t) \<Longrightarrow> peek (skipToLF t) = LF"
proof (induction t rule: skipToLF.induct)
  case (1 t)
  show ?case
  proof (cases "pos t < length_t t \<and> peek t \<noteq> LF")
    case True
    then have e: "skipToLF t = skipToLF (snd (advance t))"
      by (subst skipToLF.simps) simp
    show ?thesis using 1 True e by simp
  next
    case False
    then have e: "skipToLF t = t"
      by (subst skipToLF.simps) auto
    show ?thesis using 1(2) False e by auto
  qed
qed

lemma skipToNextLine_progress:
  assumes "pos t < length_t t"
  shows "pos t < pos (skipToNextLine t)"
proof -
  let ?u = "skipToLF t"
  have l: "later t ?u" by (rule later_skipToLF)
  show ?thesis
  proof (cases "pos ?u < length_t ?u")
    case True
    then have "pos (skipToNextLine t) = pos ?u + 1"
      by (simp add: skipToNextLine_def Let_def advance_pos)
    then show ?thesis using l by (simp add: later_def)
  next
    case False
    then have "pos (skipToNextLine t) = pos ?u"
      by (simp add: skipToNextLine_def Let_def)
    moreover have "length_t ?u = length_t t" using l by (simp add: later_def)
    ultimately show ?thesis using False assms by simp
  qed
qed

lemma later_parseKey_loop: "later t (parseKey_loop t)"
proof (induction t rule: parseKey_loop.induct)
  case (1 t)
  show ?case
  proof (cases "pos t < length_t t \<and> isValidKeyChar (peek t)")
    case True
    then have "parseKey_loop t = parseKey_loop (snd (advance t))"
      by (subst parseKey_loop.simps) simp
    moreover have "later (snd (advance t)) (parseKey_loop (snd (advance t)))"
      using 1 True by blast
    ultimately show ?thesis
      using later_advance [of t] later_trans by metis
  next
    case False
    then have "parseKey_loop t = t"
      by (subst parseKey_loop.simps) auto
    then show ?thesis by simp
  qed
qed

lemma later_parseKey: "later t (snd (parseKey t))"
  by (simp add: parseKey_def Let_def later_parseKey_loop)

lemma parseKey_nonempty_progress:
  assumes "parseKey t = (Inr key, t')" and "key \<noteq> []"
  shows "pos t < pos t'"
proof -
  from assms(1) have "key = slice (content t') (pos t) (pos t')"
    by (auto simp: parseKey_def Let_def split: if_splits)
  with assms(2) show ?thesis
    by (cases "pos t < pos t'") (auto simp: slice_def)
qed

lemma later_parseUnquotedValue_loop: "later t (snd (parseUnquotedValue_loop r t))"
proof (induction r t rule: parseUnquotedValue_loop.induct)
  case (1 result t)
  show ?case
  proof (cases "pos t < length_t t \<and> peek t \<noteq> LF \<and> peek t \<noteq> CR \<and> peek t \<noteq> HASH")
    case True
    then have "parseUnquotedValue_loop result t =
        parseUnquotedValue_loop (result @ [fst (advance t)]) (snd (advance t))"
      by (subst parseUnquotedValue_loop.simps) (simp add: Let_def)
    moreover have "later (snd (advance t))
        (snd (parseUnquotedValue_loop (result @ [fst (advance t)]) (snd (advance t))))"
      using 1 True by blast
    ultimately show ?thesis
      using later_advance [of t] later_trans by metis
  next
    case False
    then have "snd (parseUnquotedValue_loop result t) = t"
      by (subst parseUnquotedValue_loop.simps) (auto simp: Let_def)
    then show ?thesis by simp
  qed
qed

lemma later_parseUnquotedValue: "later t (snd (parseUnquotedValue t))"
  using later_parseUnquotedValue_loop [of t "[]"]
  by (cases "parseUnquotedValue_loop [] t") (auto simp: parseUnquotedValue_def)

lemma later_parseQuotedValue_loop: "later t (snd (parseQuotedValue_loop q r t))"
proof (induction q r t rule: parseQuotedValue_loop.induct)
  case (1 quote result t)
  let ?t1 = "snd (advance t)"
  let ?t2 = "snd (advance ?t1)"
  have l1: "later t ?t1" by (rule later_advance)
  have l2: "later t ?t2" using later_advance [of ?t1] l1 later_trans by blast
  show ?case
  proof (cases "pos t < length_t t")
    case False
    then have "snd (parseQuotedValue_loop quote result t) = t"
      by (subst parseQuotedValue_loop.simps) simp
    then show ?thesis by simp
  next
    case inb: True
    show ?thesis
    proof (cases "peek t = quote")
      case True
      then have "snd (parseQuotedValue_loop quote result t) = ?t1"
        using inb by (subst parseQuotedValue_loop.simps) (simp add: Let_def)
      then show ?thesis using l1 by simp
    next
      case nq: False
      show ?thesis
      proof (cases "peek t = BSLASH \<and> quote = DQUOTE")
        case esc: True
        show ?thesis
        proof (cases "pos ?t1 \<ge> length_t ?t1")
          case True
          then have "snd (parseQuotedValue_loop quote result t) = ?t1"
            using inb nq esc by (subst parseQuotedValue_loop.simps) (simp add: Let_def)
          then show ?thesis using l1 by simp
        next
          case False
          have e: "parseQuotedValue_loop quote result t =
              parseQuotedValue_loop quote (result @ unescape (fst (advance ?t1))) ?t2"
            using inb nq esc False by (subst parseQuotedValue_loop.simps) (simp add: Let_def)
          have "later ?t2 (snd (parseQuotedValue_loop quote
              (result @ unescape (fst (advance ?t1))) ?t2))"
            using 1(1) [OF inb refl nq esc refl False] .
          then show ?thesis using l2 e later_trans by metis
        qed
      next
        case False
        then have e: "parseQuotedValue_loop quote result t =
            parseQuotedValue_loop quote (result @ [fst (advance t)]) ?t1"
          using inb nq by (subst parseQuotedValue_loop.simps) (auto simp: Let_def)
        have "later ?t1 (snd (parseQuotedValue_loop quote (result @ [fst (advance t)]) ?t1))"
          using 1(2) inb nq False by blast
        then show ?thesis using l1 e later_trans by metis
      qed
    qed
  qed
qed

lemma later_parseQuotedValue: "later t (snd (parseQuotedValue q t))"
  unfolding parseQuotedValue_def
  using later_advance [of t] later_parseQuotedValue_loop [of "snd (advance t)" q "[]"] later_trans
  by blast

lemma later_ParseLine_finish: "later t (snd (ParseLine_finish k v a t))"
  unfolding ParseLine_finish_def Let_def
  using later_skipWhitespace [of t] later_skipToNextLine [of "skipWhitespace t"] later_trans
  by auto

lemma ParseLine_finish_Error [simp]: "Error (fst (ParseLine_finish k v a t)) = None"
  by (simp add: ParseLine_finish_def Let_def)

lemma ParseLine_finish_Key [simp]: "Key (fst (ParseLine_finish k v a t)) = k"
  by (simp add: ParseLine_finish_def Let_def)

text \<open>
  One iteration of the document loop that does not fail moves the cursor forward: by the
  line feed, carriage return or comment of a line without a key, or by the key itself.
\<close>

lemma ParseLine_progress:
  assumes inb: "pos t < length_t t"
    and ok: "Error (fst (ParseLine t)) = None"
  shows "pos t < pos (snd (ParseLine t)) \<and> length_t (snd (ParseLine t)) = length_t t"
proof -
  let ?t1 = "skipWhitespace t"
  have l1: "later t ?t1" by (rule later_skipWhitespace)
  show ?thesis
  proof (cases "pos ?t1 \<ge> length_t ?t1 \<or> peek ?t1 = LF \<or> peek ?t1 = CR \<or> peek ?t1 = HASH")
    case True
    then have e: "snd (ParseLine t) = skipToNextLine ?t1"
      by (simp add: ParseLine_def Let_def)
    have l2: "later ?t1 (skipToNextLine ?t1)" by (rule later_skipToNextLine)
    show ?thesis
    proof (cases "pos ?t1 < length_t ?t1")
      case True
      then have "pos ?t1 < pos (skipToNextLine ?t1)" by (rule skipToNextLine_progress)
      then show ?thesis using e l1 l2 by (simp add: later_def)
    next
      case False
      then show ?thesis using e l1 l2 inb by (simp add: later_def)
    qed
  next
    case False
    define t2 where "t2 = (if exportMode ?t1 \<and> HasPrefix (drop (pos ?t1) (content ?t1)) ''export ''
                     then skipWhitespace (?t1\<lparr>pos := pos ?t1 + 7, col := col ?t1 + 7\<rparr>)
                     else ?t1)"
    have l2: "later ?t1 t2"
      using later_skipWhitespace [of "?t1\<lparr>pos := pos ?t1 + 7, col := col ?t1 + 7\<rparr>"]
      by (auto simp: t2_def later_def)
    obtain rk t3 where pk: "parseKey t2 = (rk, t3)" by (cases "parseKey t2")
    have l3: "later t2 t3" using later_parseKey [of t2] pk by simp
    have unf: "ParseLine t =
      (case rk of
         Inl err \<Rightarrow> (errorResult err, t3)
       | Inr key \<Rightarrow>
           if key = [] then (errorResult (MissingVariableName (line t3)), t3)
           else
             let t4 = skipWhitespace t3
             in if peek t4 \<noteq> EQUALS
                then (errorResult (MissingAssignment (line t4)), t4)
                else
                  let t5 = snd (advance t4);
                      t6 = skipWhitespace t5;
                      ch = peek t6
                  in if ch = DQUOTE then
                       (case parseQuotedValue DQUOTE t6 of
                          (Inl err, t7) \<Rightarrow> (errorResult err, t7)
                        | (Inr value, t7) \<Rightarrow> ParseLine_finish key value True t7)
                     else if ch = SQUOTE then
                       (case parseQuotedValue SQUOTE t6 of
                          (Inl err, t7) \<Rightarrow> (errorResult err, t7)
                        | (Inr value, t7) \<Rightarrow> ParseLine_finish key value False t7)
                     else
                       (case parseUnquotedValue t6 of
                          ((value, hasComment), t7) \<Rightarrow>
                            ParseLine_finish key value True
                              (if hasComment then skipToNextLine t7 else t7)))"
      using False pk unfolding ParseLine_def Let_def t2_def by simp
    show ?thesis
    proof (cases rk)
      case (Inl err)
      then show ?thesis using ok unf by (simp add: errorResult_def)
    next
      case (Inr key)
      have kne: "key \<noteq> []"
        using ok unf Inr by (auto simp: errorResult_def)
      have p3: "pos t2 < pos t3"
        using parseKey_nonempty_progress pk Inr kne by blast
      define t4 where "t4 = skipWhitespace t3"
      define t6 where "t6 = skipWhitespace (snd (advance t4))"
      have l4: "later t3 t4" unfolding t4_def by (rule later_skipWhitespace)
      have l6: "later t4 t6"
        unfolding t6_def
        using later_advance [of t4] later_skipWhitespace [of "snd (advance t4)"] later_trans
        by blast
      have eq: "peek t4 = EQUALS"
        using ok unf Inr kne by (auto simp: errorResult_def Let_def t4_def split: if_splits)
      have l7: "later t6 (snd (ParseLine t))"
      proof (cases "peek t6 = DQUOTE")
        case True
        obtain rq t7 where q: "parseQuotedValue DQUOTE t6 = (rq, t7)"
          by (cases "parseQuotedValue DQUOTE t6")
        have "later t6 t7" using later_parseQuotedValue [of t6 DQUOTE] q by simp
        moreover have "later t7 (snd (ParseLine_finish key v True t7))" for v
          by (rule later_ParseLine_finish)
        ultimately show ?thesis
          using unf Inr kne eq True q later_trans
          by (cases rq) (auto simp: Let_def t4_def [symmetric] t6_def [symmetric])
      next
        case ndq: False
        show ?thesis
        proof (cases "peek t6 = SQUOTE")
          case True
          obtain rq t7 where q: "parseQuotedValue SQUOTE t6 = (rq, t7)"
            by (cases "parseQuotedValue SQUOTE t6")
          have "later t6 t7" using later_parseQuotedValue [of t6 SQUOTE] q by simp
          moreover have "later t7 (snd (ParseLine_finish key v False t7))" for v
            by (rule later_ParseLine_finish)
          ultimately show ?thesis
            using unf Inr kne eq True q later_trans
            by (cases rq) (auto simp: Let_def t4_def [symmetric] t6_def [symmetric])
        next
          case False
          obtain v hc t7 where q: "parseUnquotedValue t6 = ((v, hc), t7)"
            by (cases "parseUnquotedValue t6") auto
          have a: "later t6 t7" using later_parseUnquotedValue [of t6] q by simp
          have b: "later t7 (if hc then skipToNextLine t7 else t7)"
            using later_skipToNextLine [of t7] by simp
          have c: "later (if hc then skipToNextLine t7 else t7)
              (snd (ParseLine_finish key v True (if hc then skipToNextLine t7 else t7)))"
            by (rule later_ParseLine_finish)
          have "snd (ParseLine t) =
              snd (ParseLine_finish key v True (if hc then skipToNextLine t7 else t7))"
            using unf Inr kne eq ndq False q
            by (simp add: Let_def t4_def [symmetric] t6_def [symmetric])
          then show ?thesis using a b c later_trans by metis
        qed
      qed
      show ?thesis
        using l1 l2 l3 l4 l6 l7 p3 by (simp add: later_def)
    qed
  qed
qed

lemma ParseLine_measure:
  assumes "pos t < length_t t" and "(r, t1) = ParseLine t" and "Error r = None"
  shows "length_t t1 - pos t1 < length_t t - pos t"
proof -
  have "Error (fst (ParseLine t)) = None" and "snd (ParseLine t) = t1"
    using assms(2,3) by (cases "ParseLine t"; simp)+
  then show ?thesis using ParseLine_progress [of t] assms(1) by auto
qed

text \<open>
  The loop of \<open>Parse\<close>, with the map \<open>env\<close> built so far. The first error ends it and is
  returned in place of the map.
\<close>

function Parse_loop :: "Tokenizer \<Rightarrow> (string \<rightharpoonup> string) \<Rightarrow> error + (string \<rightharpoonup> string)" where
  "Parse_loop t env =
     (if pos t < length_t t then
        (case ParseLine t of
           (result, t1) \<Rightarrow>
             (case Error result of
                Some err \<Rightarrow> Inl err
              | None \<Rightarrow>
                  if Key result = [] then Parse_loop t1 env
                  else
                    let value = Value result;
                        value = (if AllowExpansion result \<and> DOLLAR \<in> set value
                                 then expandVariables value env else value)
                    in Parse_loop t1 (env(Key result \<mapsto> value))))
      else Inr env)"
  by pat_completeness auto
termination
  by (relation "measure (\<lambda>(t, env). length_t t - pos t)") (auto simp: ParseLine_measure)

declare Parse_loop.simps [simp del]

definition Parse :: "string \<Rightarrow> error + (string \<rightharpoonup> string)" where
  "Parse c = Parse_loop (NewTokenizer c) Map.empty"

subsection \<open>dotenv.go: writing a map as KEY=value lines\<close>

text \<open>
  \<open>needsQuoting\<close> ranges over the runes of the value and compares each with ASCII
  characters. In UTF-8 a byte below 128 is always a rune of its own, so the loop finds
  one of these characters exactly when the byte occurs in the value.
\<close>

definition needsQuoting :: "string \<Rightarrow> bool" where
  "needsQuoting value =
     (if value = [] then False
      else \<exists>ch \<in> set value.
             ch \<in> {SPC, TAB, LF, CR, DQUOTE, SQUOTE, BSLASH, HASH, DOLLAR})"

text \<open>\<open>strings.ReplaceAll(s, old, new)\<close>, for the non-empty \<open>old\<close> of every call here.\<close>

function ReplaceAll :: "string \<Rightarrow> string \<Rightarrow> string \<Rightarrow> string" where
  "ReplaceAll [] old new = []"
| "ReplaceAll (c # cs) old new =
     (if old \<noteq> [] \<and> HasPrefix (c # cs) old
      then new @ ReplaceAll (drop (length old) (c # cs)) old new
      else c # ReplaceAll cs old new)"
  by pat_completeness auto
termination
  by (relation "measure (\<lambda>(s, old, new). length s)") auto

definition quoteValue :: "string \<Rightarrow> string" where
  "quoteValue value =
     (let escaped = ReplaceAll value [BSLASH] [BSLASH, BSLASH];
          escaped = ReplaceAll escaped [DQUOTE] [BSLASH, DQUOTE];
          escaped = ReplaceAll escaped [LF] [BSLASH, CHR ''n''];
          escaped = ReplaceAll escaped [TAB] [BSLASH, CHR ''t''];
          escaped = ReplaceAll escaped [CR] [BSLASH, CHR ''r'']
      in [DQUOTE] @ escaped @ [DQUOTE])"

text \<open>
  The exchange sort of \<open>WriteEnvFile\<close>: the inner loop over \<open>j\<close>, the outer loop over \<open>i\<close>.
  Go compares strings byte by byte, which is the lexicographic order on \<^typ>\<open>string\<close>.
\<close>

function sortKeys_inner :: "nat \<Rightarrow> nat \<Rightarrow> string list \<Rightarrow> string list" where
  "sortKeys_inner i j keys =
     (if j < length keys
      then sortKeys_inner i (j + 1)
             (if keys ! i > keys ! j then keys[i := keys ! j, j := keys ! i] else keys)
      else keys)"
  by pat_completeness auto
termination
  by (relation "measure (\<lambda>(i, j, keys). length keys - j)") auto

declare sortKeys_inner.simps [simp del]

lemma length_sortKeys_inner [simp]: "length (sortKeys_inner i j keys) = length keys"
proof (induction i j keys rule: sortKeys_inner.induct)
  case (1 i j keys)
  show ?case
    using 1 by (subst sortKeys_inner.simps) auto
qed

function sortKeys :: "nat \<Rightarrow> string list \<Rightarrow> string list" where
  "sortKeys i keys =
     (if i < length keys then sortKeys (i + 1) (sortKeys_inner i (i + 1) keys) else keys)"
  by pat_completeness auto
termination
  by (relation "measure (\<lambda>(i, keys). length keys - i)") auto

declare sortKeys.simps [simp del]

text \<open>\<open>strings.Join(elems, sep)\<close>.\<close>

fun Join :: "string list \<Rightarrow> string \<Rightarrow> string" where
  "Join [] sep = []"
| "Join [x] sep = x"
| "Join (x # y # ys) sep = x @ sep @ Join (y # ys) sep"

text \<open>
  The text \<open>WriteEnvFile\<close> hands to \<open>os.WriteFile\<close>. The order in which \<open>range env\<close>
  yields the keys is not fixed by Go: \<open>keys0\<close> is that order, any list of the keys of
  \<open>env\<close> without repetition. A key that is not in the map reads as the empty string.
\<close>

definition WriteEnvFile_line :: "(string \<rightharpoonup> string) \<Rightarrow> string \<Rightarrow> string" where
  "WriteEnvFile_line env key =
     (let value = (case env key of Some v \<Rightarrow> v | None \<Rightarrow> []);
          value = (if needsQuoting value then quoteValue value else value)
      in key @ ''='' @ value)"

definition WriteEnvFile :: "string list \<Rightarrow> (string \<rightharpoonup> string) \<Rightarrow> string" where
  "WriteEnvFile keys0 env =
     (let keys = sortKeys 0 keys0;
          lines = map (WriteEnvFile_line env) keys;
          content = Join lines [LF]
      in if content \<noteq> [] then content @ [LF] else content)"

text \<open>The equations that run the definitions on a concrete input.\<close>

lemmas run_simps =
  Parse_def NewTokenizer_def Parse_loop.simps ParseLine_def ParseLine_finish_def
  skipWhitespace.simps skipToNextLine_def skipToLF.simps parseKey_def parseKey_loop.simps
  parseQuotedValue_def parseQuotedValue_loop.simps parseUnquotedValue_def
  parseUnquotedValue_loop.simps peek_def advance_def Let_def HasPrefix_def slice_def
  isValidKeyStart_def isValidKeyChar_def less_eq_char_def less_char_def errorResult_def
  unescape_def TrimRight_def expandVariables_def expandVariables_braced_def
  expandVariables_simple_def ReplaceAllStringFunc.simps varPattern_def
  simplePattern_def

lemmas write_simps =
  WriteEnvFile_def WriteEnvFile_line_def needsQuoting_def quoteValue_def sortKeys.simps
  sortKeys_inner.simps HasPrefix_def Let_def less_char_def less_eq_char_def

definition wfTok :: "Tokenizer \<Rightarrow> bool" where
  "wfTok t \<longleftrightarrow> length_t t = length (content t) \<and> pos t \<le> length (content t)"

definition rest :: "Tokenizer \<Rightarrow> string" where
  "rest t = drop (pos t) (content t)"

definition follows :: "Tokenizer \<Rightarrow> Tokenizer \<Rightarrow> bool" where
  "follows t t' \<longleftrightarrow>
     wfTok t' \<and> later t t' \<and>
     line t' + count_list (rest t') LF = line t + count_list (rest t) LF"

lemma follows_refl: "wfTok t \<Longrightarrow> follows t t"
  by (simp add: follows_def)

lemma follows_trans: "follows a b \<Longrightarrow> follows b c \<Longrightarrow> follows a c"
  using later_trans by (auto simp: follows_def)

lemma follows_wf: "follows t t' \<Longrightarrow> wfTok t'"
  by (simp add: follows_def)

lemma NewTokenizer_rest [simp]:
  "wfTok (NewTokenizer c)" "rest (NewTokenizer c) = c" "line (NewTokenizer c) = 1"
  by (simp_all add: wfTok_def rest_def NewTokenizer_def)

lemma inb_rest: "wfTok t \<Longrightarrow> pos t < length_t t \<longleftrightarrow> rest t \<noteq> []"
  by (auto simp: wfTok_def rest_def)

lemma peek_Nil: "wfTok t \<Longrightarrow> rest t = [] \<Longrightarrow> peek t = NUL"
  by (auto simp: wfTok_def rest_def peek_def)

lemma peek_Cons: "wfTok t \<Longrightarrow> rest t = c # cs \<Longrightarrow> peek t = c"
  by (auto simp: wfTok_def rest_def peek_def hd_drop_conv_nth [symmetric] dest: arg_cong [where f = hd])

lemma advance_Cons:
  assumes "wfTok t" and "rest t = c # cs"
  shows "fst (advance t) = c" and "rest (snd (advance t)) = cs" and "follows t (snd (advance t))"
proof -
  have lt: "length_t t = length (content t)"
    using assms by (simp add: wfTok_def)
  have inb: "pos t < length (content t)"
    using assms(2) by (cases "pos t < length (content t)") (auto simp: rest_def)
  have c: "content t ! pos t = c"
    using assms peek_Cons [OF assms] inb by (simp add: peek_def wfTok_def)
  have cs: "drop (Suc (pos t)) (content t) = cs"
    using assms(2) inb by (metis Cons_nth_drop_Suc list.inject rest_def)
  show "fst (advance t) = c"
    using inb lt c by (simp add: advance_def Let_def)
  show r: "rest (snd (advance t)) = cs"
    using inb lt cs by (simp add: advance_def Let_def rest_def)
  have "wfTok (snd (advance t))"
    using inb lt by (simp add: advance_def Let_def wfTok_def)
  moreover have "line (snd (advance t)) = line t + (if c = LF then 1 else 0)"
    using inb lt c by (simp add: advance_def Let_def)
  ultimately show "follows t (snd (advance t))"
    using r assms(2) later_advance [of t] by (simp add: follows_def)
qed

lemma advance_Nil: "wfTok t \<Longrightarrow> rest t = [] \<Longrightarrow> advance t = (NUL, t)"
  by (auto simp: wfTok_def rest_def advance_def)

lemma follows_pos:
  assumes "wfTok t" and "follows t t'"
  shows "pos t' = pos t + (length (rest t) - length (rest t'))"
  using assms by (auto simp: follows_def wfTok_def rest_def later_def)

lemma follows_slice:
  assumes "wfTok t" and "follows t t'" and "rest t = xs @ rest t'"
  shows "slice (content t') (pos t) (pos t') = xs"
proof -
  have p: "pos t' = pos t + length xs"
    using follows_pos [OF assms(1,2)] assms(3) by simp
  have "content t' = content t" using assms(2) by (simp add: follows_def later_def)
  then show ?thesis
    using p assms(3) by (simp add: slice_def rest_def)
qed


lemma skipWhitespace_rest:
  assumes "wfTok t"
  shows "rest (skipWhitespace t) = dropWhile (\<lambda>c. c = SPC \<or> c = TAB) (rest t) \<and> follows t (skipWhitespace t)"
  using assms
proof (induction "rest t" arbitrary: t)
  case Nil
  then have "skipWhitespace t = t"
    by (subst skipWhitespace.simps) (simp add: inb_rest)
  then show ?case using Nil by (simp add: follows_refl)
next
  case (Cons c cs)
  have r: "rest t = c # cs" using Cons(2) by simp
  have pk: "peek t = c" using peek_Cons [OF Cons(3) r] .
  have inb: "pos t < length_t t" using Cons(3) r by (simp add: inb_rest)
  show ?case
  proof (cases "c = SPC \<or> c = TAB")
    case True
    have e: "skipWhitespace t = skipWhitespace (snd (advance t))"
      using True pk inb by (subst skipWhitespace.simps) simp
    have f: "follows t (snd (advance t))" and r': "rest (snd (advance t)) = cs"
      using advance_Cons [OF Cons(3) r] by simp_all
    have "rest (skipWhitespace (snd (advance t))) =
        dropWhile (\<lambda>c. c = SPC \<or> c = TAB) (rest (snd (advance t))) \<and>
        follows (snd (advance t)) (skipWhitespace (snd (advance t)))"
      using Cons(1) [of "snd (advance t)"] r' f by (simp add: follows_wf)
    then show ?thesis
      using e r r' f True follows_trans by auto
  next
    case False
    have "skipWhitespace t = t"
      using False pk by (subst skipWhitespace.simps) simp
    then show ?thesis using False r Cons(3) by (simp add: follows_refl)
  qed
qed

lemma skipToLF_rest:
  assumes "wfTok t"
  shows "rest (skipToLF t) = dropWhile (\<lambda>c. c \<noteq> LF) (rest t) \<and> follows t (skipToLF t)"
  using assms
proof (induction "rest t" arbitrary: t)
  case Nil
  then have "skipToLF t = t"
    by (subst skipToLF.simps) (simp add: inb_rest)
  then show ?case using Nil by (simp add: follows_refl)
next
  case (Cons c cs)
  have r: "rest t = c # cs" using Cons(2) by simp
  have pk: "peek t = c" using peek_Cons [OF Cons(3) r] .
  have inb: "pos t < length_t t" using Cons(3) r by (simp add: inb_rest)
  show ?case
  proof (cases "c \<noteq> LF")
    case True
    have e: "skipToLF t = skipToLF (snd (advance t))"
      using True pk inb by (subst skipToLF.simps) simp
    have f: "follows t (snd (advance t))" and r': "rest (snd (advance t)) = cs"
      using advance_Cons [OF Cons(3) r] by simp_all
    have "rest (skipToLF (snd (advance t))) =
        dropWhile (\<lambda>c. c \<noteq> LF) (rest (snd (advance t))) \<and>
        follows (snd (advance t)) (skipToLF (snd (advance t)))"
      using Cons(1) [of "snd (advance t)"] r' f by (simp add: follows_wf)
    then show ?thesis
      using e r r' f True follows_trans by auto
  next
    case False
    have "skipToLF t = t"
      using False pk by (subst skipToLF.simps) simp
    then show ?thesis using False r Cons(3) by (simp add: follows_refl)
  qed
qed

lemma parseKey_loop_rest:
  assumes "wfTok t"
  shows "rest (parseKey_loop t) = dropWhile (isValidKeyChar) (rest t) \<and> follows t (parseKey_loop t)"
  using assms
proof (induction "rest t" arbitrary: t)
  case Nil
  then have "parseKey_loop t = t"
    by (subst parseKey_loop.simps) (simp add: inb_rest)
  then show ?case using Nil by (simp add: follows_refl)
next
  case (Cons c cs)
  have r: "rest t = c # cs" using Cons(2) by simp
  have pk: "peek t = c" using peek_Cons [OF Cons(3) r] .
  have inb: "pos t < length_t t" using Cons(3) r by (simp add: inb_rest)
  show ?case
  proof (cases "isValidKeyChar c")
    case True
    have e: "parseKey_loop t = parseKey_loop (snd (advance t))"
      using True pk inb by (subst parseKey_loop.simps) simp
    have f: "follows t (snd (advance t))" and r': "rest (snd (advance t)) = cs"
      using advance_Cons [OF Cons(3) r] by simp_all
    have "rest (parseKey_loop (snd (advance t))) =
        dropWhile (isValidKeyChar) (rest (snd (advance t))) \<and>
        follows (snd (advance t)) (parseKey_loop (snd (advance t)))"
      using Cons(1) [of "snd (advance t)"] r' f by (simp add: follows_wf)
    then show ?thesis
      using e r r' f True follows_trans by auto
  next
    case False
    have "parseKey_loop t = t"
      using False pk by (subst parseKey_loop.simps) simp
    then show ?thesis using False r Cons(3) by (simp add: follows_refl)
  qed
qed

lemma skipToNextLine_rest:
  assumes "wfTok t"
  shows "rest (skipToNextLine t) = drop 1 (dropWhile (\<lambda>c. c \<noteq> LF) (rest t)) \<and>
         follows t (skipToNextLine t)"
proof -
  let ?u = "skipToLF t"
  have u: "rest ?u = dropWhile (\<lambda>c. c \<noteq> LF) (rest t)" and fu: "follows t ?u"
    using skipToLF_rest [OF assms] by simp_all
  have wu: "wfTok ?u" using fu by (rule follows_wf)
  have a: "rest (skipToNextLine t) = drop 1 (rest ?u) \<and> follows ?u (skipToNextLine t)"
  proof (cases "rest ?u")
    case Nil
    then have "skipToNextLine t = ?u"
      using wu by (simp add: skipToNextLine_def Let_def inb_rest)
    then show ?thesis using Nil wu by (simp add: follows_refl)
  next
    case (Cons c cs)
    then have "skipToNextLine t = snd (advance ?u)"
      using wu by (simp add: skipToNextLine_def Let_def inb_rest)
    moreover have "rest (snd (advance ?u)) = cs" and "follows ?u (snd (advance ?u))"
      using advance_Cons [OF wu Cons] by simp_all
    ultimately show ?thesis using Cons by simp
  qed
  from a have "rest (skipToNextLine t) = drop 1 (dropWhile (\<lambda>c. c \<noteq> LF) (rest t))"
    by (simp only: u)
  moreover have "follows t (skipToNextLine t)"
    using a fu follows_trans by blast
  ultimately show ?thesis by blast
qed

lemma parseKey_rest:
  assumes "wfTok t"
  shows "parseKey t =
     (if rest t \<noteq> [] \<and> isValidKeyStart (hd (rest t))
      then (Inr (takeWhile isValidKeyChar (rest t)), parseKey_loop t)
      else (Inl (InvalidKey (line t)), t))"
proof (cases "rest t")
  case Nil
  then have "peek t = NUL" using assms by (simp add: peek_Nil)
  then show ?thesis
    using Nil by (simp add: parseKey_def isValidKeyStart_def less_eq_char_def)
next
  case (Cons c cs)
  have pk: "peek t = c" using peek_Cons [OF assms Cons] .
  let ?u = "parseKey_loop t"
  have u: "rest ?u = dropWhile isValidKeyChar (rest t)" and fu: "follows t ?u"
    using parseKey_loop_rest [OF assms] by simp_all
  have "rest t = takeWhile isValidKeyChar (rest t) @ rest ?u"
    using u by simp
  then have "slice (content ?u) (pos t) (pos ?u) = takeWhile isValidKeyChar (rest t)"
    using follows_slice [OF assms fu] by blast
  then show ?thesis
    using pk Cons by (simp add: parseKey_def Let_def)
qed

lemma parseUnquotedValue_loop_rest:
  assumes "wfTok t"
  shows "parseUnquotedValue_loop acc t =
           ((acc @ takeWhile (\<lambda>c. c \<noteq> LF \<and> c \<noteq> CR \<and> c \<noteq> HASH) (rest t),
             (case dropWhile (\<lambda>c. c \<noteq> LF \<and> c \<noteq> CR \<and> c \<noteq> HASH) (rest t) of
                [] \<Rightarrow> False | c # _ \<Rightarrow> c = HASH)),
            snd (parseUnquotedValue_loop acc t)) \<and>
         rest (snd (parseUnquotedValue_loop acc t)) =
           dropWhile (\<lambda>c. c \<noteq> LF \<and> c \<noteq> CR \<and> c \<noteq> HASH) (rest t) \<and>
         follows t (snd (parseUnquotedValue_loop acc t))"
  using assms
proof (induction "rest t" arbitrary: t acc)
  case Nil
  then have "parseUnquotedValue_loop acc t = ((acc, False), t)"
    by (subst parseUnquotedValue_loop.simps) (simp add: inb_rest)
  then show ?case using Nil by (simp add: follows_refl)
next
  case (Cons c cs)
  have r: "rest t = c # cs" using Cons(2) by simp
  have pk: "peek t = c" using peek_Cons [OF Cons(3) r] .
  have inb: "pos t < length_t t" using Cons(3) r by (simp add: inb_rest)
  show ?case
  proof (cases "c \<noteq> LF \<and> c \<noteq> CR \<and> c \<noteq> HASH")
    case True
    have f: "follows t (snd (advance t))" and r': "rest (snd (advance t)) = cs"
      and a: "fst (advance t) = c"
      using advance_Cons [OF Cons(3) r] by simp_all
    have e: "parseUnquotedValue_loop acc t =
        parseUnquotedValue_loop (acc @ [c]) (snd (advance t))"
      using True pk inb a by (subst parseUnquotedValue_loop.simps) (simp add: Let_def)
    show ?thesis
      using Cons(1) [of "snd (advance t)" "acc @ [c]"] r' f e r True follows_trans follows_wf
      by auto
  next
    case False
    have "parseUnquotedValue_loop acc t = ((acc, c = HASH), t)"
      using False pk inb by (subst parseUnquotedValue_loop.simps) (auto simp: Let_def)
    then show ?thesis using False r Cons(3) by (auto simp: follows_refl)
  qed
qed

text \<open>
  The states the loop of \<open>Parse\<close> passes through: \<open>Parse_reaches t env t' env'\<close> when the
  loop, started at \<open>t\<close> with the map \<open>env\<close>, is at \<open>t'\<close> with \<open>env'\<close> after some
  iterations, none of which failed.
\<close>

inductive Parse_reaches ::
  "Tokenizer \<Rightarrow> (string \<rightharpoonup> string) \<Rightarrow> Tokenizer \<Rightarrow> (string \<rightharpoonup> string) \<Rightarrow> bool" where
  start: "Parse_reaches t env t env"
| step: "Parse_reaches t env t1 env1 \<Longrightarrow> pos t1 < length_t t1 \<Longrightarrow>
         ParseLine t1 = (result, t2) \<Longrightarrow> Error result = None \<Longrightarrow>
         env2 = (if Key result = [] then env1
                 else env1(Key result \<mapsto>
                   (if AllowExpansion result \<and> DOLLAR \<in> set (Value result)
                    then expandVariables (Value result) env1 else Value result))) \<Longrightarrow>
         Parse_reaches t env t2 env2"

code_pred Parse_reaches .

lemma Parse_reaches_loop:
  "Parse_reaches t env t' env' \<Longrightarrow> Parse_loop t env = Parse_loop t' env'"
proof (induction rule: Parse_reaches.induct)
  case (start t env)
  show ?case by simp
next
  case (step t env t1 env1 result t2 env2)
  have "Parse_loop t1 env1 = Parse_loop t2 env2"
    using step(2,3,4,5) by (subst Parse_loop.simps) (simp add: Let_def)
  with step(6) show ?case by simp
qed

text \<open>
  C10: a quoted value may hold a line feed: \<open>K="a<LF>b"\<close> parses to the map that takes
  \<open>K\<close> to the three bytes \<open>a\<close>, line feed, \<open>b\<close>.
\<close>

theorem quoted_value_spans_lines:
  \<open>Parse (''K="a'' @ [LF] @ ''b"'') = Inr (Map.empty(''K'' \<mapsto> ''a'' @ [LF] @ ''b''))\<close>
  by (simp add: run_simps)

text \<open>
  C8: \<open>Parse\<close> returns an error or a map for every input, and an iteration of its loop
  that does not fail leaves strictly less input unread, which is the measure of the
  loop's termination proof.
\<close>

theorem Parse_total:
  "((\<exists>err. Parse c = Inl err) \<or> (\<exists>env. Parse c = Inr env)) \<and>
   (pos t < length_t t \<and> Error (fst (ParseLine t)) = None \<longrightarrow>
      length_t (snd (ParseLine t)) - pos (snd (ParseLine t)) < length_t t - pos t)"
proof
  show "(\<exists>err. Parse c = Inl err) \<or> (\<exists>env. Parse c = Inr env)"
    by (cases "Parse c") auto
  show "pos t < length_t t \<and> Error (fst (ParseLine t)) = None \<longrightarrow>
      length_t (snd (ParseLine t)) - pos (snd (ParseLine t)) < length_t t - pos t"
    using ParseLine_progress [of t] by auto
qed

theorem Parse_total_witness:
  "((\<exists>err. Parse ''A=1'' = Inl err) \<or> (\<exists>env. Parse ''A=1'' = Inr env)) \<and>
   pos (NewTokenizer ''A=1'') < length_t (NewTokenizer ''A=1'') \<and>
   Error (fst (ParseLine (NewTokenizer ''A=1''))) = None \<and>
   length_t (snd (ParseLine (NewTokenizer ''A=1''))) - pos (snd (ParseLine (NewTokenizer ''A=1'')))
     < length_t (NewTokenizer ''A=1'') - pos (NewTokenizer ''A=1'')"
proof -
  have a: "pos (NewTokenizer ''A=1'') < length_t (NewTokenizer ''A=1'')"
    by (simp add: NewTokenizer_def)
  have b: "Error (fst (ParseLine (NewTokenizer ''A=1''))) = None"
    by (simp add: run_simps)
  show ?thesis
    using Parse_total [of "''A=1''" "NewTokenizer ''A=1''"] a b by blast
qed

text \<open>
  C7: when the loop of \<open>Parse\<close>, after any number of lines that parsed, comes to a line
  whose parse fails, \<open>Parse\<close> returns that error and no map.
\<close>

theorem Parse_first_error:
  assumes "Parse_reaches (NewTokenizer c) Map.empty t env"
    and "pos t < length_t t"
    and "Error (fst (ParseLine t)) = Some err"
  shows "Parse c = Inl err"
proof -
  have "Parse c = Parse_loop t env"
    using Parse_reaches_loop [OF assms(1)] by (simp add: Parse_def)
  also have "\<dots> = Inl err"
  proof -
    obtain result t1 where r: "ParseLine t = (result, t1)" by (cases "ParseLine t")
    then have "Error result = Some err" using assms(3) by simp
    then show ?thesis
      using assms(2) r by (subst Parse_loop.simps) simp
  qed
  finally show ?thesis .
qed


theorem Parse_first_error_witness:
  "Parse_reaches (NewTokenizer (''A=1'' @ [LF] @ ''B'')) Map.empty
     (snd (ParseLine (snd (ParseLine (NewTokenizer (''A=1'' @ [LF] @ ''B''))))))
     (Map.empty(''A'' \<mapsto> ''1'')) \<and>
   Error (fst (ParseLine (snd (ParseLine (snd (ParseLine (NewTokenizer (''A=1'' @ [LF] @ ''B''))))))))
     = Some (MissingAssignment 2) \<and>
   Parse (''A=1'' @ [LF] @ ''B'') = Inl (MissingAssignment 2)"
proof -
  let ?c = "''A=1'' @ [LF] @ ''B''"
  let ?t0 = "NewTokenizer ?c"
  let ?t1 = "snd (ParseLine ?t0)"
  let ?t2 = "snd (ParseLine ?t1)"
  have r0: "Parse_reaches ?t0 Map.empty ?t0 Map.empty" by (rule Parse_reaches.start)
  have r1: "Parse_reaches ?t0 Map.empty ?t1 (Map.empty(''A'' \<mapsto> ''1''))"
    by (rule Parse_reaches.step [OF r0, where result = "fst (ParseLine ?t0)"])
       (simp_all add: run_simps)
  have r2: "Parse_reaches ?t0 Map.empty ?t2 (Map.empty(''A'' \<mapsto> ''1''))"
    by (rule Parse_reaches.step [OF r1, where result = "fst (ParseLine ?t1)"])
       (simp_all add: run_simps)
  have p: "pos ?t2 < length_t ?t2" by (simp add: run_simps)
  have e: "Error (fst (ParseLine ?t2)) = Some (MissingAssignment 2)" by (simp add: run_simps)
  show ?thesis
    using Parse_first_error [OF r2 p e] r2 e by simp
qed

text \<open>A variable name: what \<open>parseKey\<close> accepts and what the two patterns capture.\<close>

definition isKeyName :: "string \<Rightarrow> bool" where
  "isKeyName name \<longleftrightarrow>
     name \<noteq> [] \<and> isValidKeyStart (hd name) \<and> list_all isValidKeyChar name"

lemma not_key_DOLLAR [simp]: "\<not> isValidKeyChar DOLLAR" "\<not> isValidKeyStart DOLLAR"
  by (simp_all add: isValidKeyChar_def isValidKeyStart_def less_eq_char_def)

lemma keyStart_keyChar: "isValidKeyStart c \<Longrightarrow> isValidKeyChar c"
  by (auto simp: isValidKeyChar_def isValidKeyStart_def)

lemma takeWhile_stop: "\<not> P d \<Longrightarrow> takeWhile P (xs @ d # ys) = takeWhile P xs"
  by (induction xs) auto

lemma takeWhile_all: "list_all P xs \<Longrightarrow> ys = [] \<or> \<not> P (hd ys) \<Longrightarrow> takeWhile P (xs @ ys) = xs"
  by (induction xs) (cases ys; auto)+

lemma dropWhile_all: "list_all P xs \<Longrightarrow> ys = [] \<or> \<not> P (hd ys) \<Longrightarrow> dropWhile P (xs @ ys) = ys"
  by (induction xs) (cases ys; auto)+

lemma simplePattern_le: "simplePattern x = Some n \<Longrightarrow> 0 < n \<and> n \<le> length x"
  using length_takeWhile_le [of isValidKeyChar]
  by (auto simp: simplePattern_def split: list.splits if_splits
      intro: le_trans)

lemma varPattern_le: "varPattern x = Some n \<Longrightarrow> 0 < n \<and> n \<le> length x"
proof -
  assume a: "varPattern x = Some n"
  then obtain c0 c1 c2 cs where x: "x = c0 # c1 # c2 # cs"
    by (auto simp: varPattern_def split: list.splits)
  let ?k = "length (takeWhile isValidKeyChar cs)"
  from a x have n: "n = ?k + 4" and d: "drop ?k cs \<noteq> []"
    by (auto simp: varPattern_def Let_def split: list.splits if_splits)
  from d have "?k < length cs" by simp
  with n x show ?thesis by simp
qed

lemma simplePattern_stop: "x \<noteq> [] \<Longrightarrow> simplePattern (x @ DOLLAR # y) = simplePattern x"
  by (auto simp: simplePattern_def takeWhile_stop split: list.splits)

lemma varPattern_Cons3:
  "varPattern (c0 # c1 # c2 # cs) =
     (if c0 = DOLLAR \<and> c1 = LBRACE \<and> isValidKeyStart c2 then
        (case dropWhile isValidKeyChar cs of
           [] \<Rightarrow> None
         | c # _ \<Rightarrow> if c = RBRACE then Some (length (takeWhile isValidKeyChar cs) + 4) else None)
      else None)"
  by (simp add: varPattern_def Let_def dropWhile_eq_drop)

lemma varPattern_short: "length x < 3 \<Longrightarrow> varPattern x = None"
  by (auto simp: varPattern_def split: list.splits)

lemma dropWhile_stop:
  "\<not> P d \<Longrightarrow> dropWhile P (xs @ d # ys) = dropWhile P xs @ d # ys"
  by (induction xs) auto

lemma varPattern_stop: "x \<noteq> [] \<Longrightarrow> varPattern (x @ DOLLAR # y) = varPattern x"
proof -
  assume ne: "x \<noteq> []"
  show ?thesis
  proof (cases "length x < 3")
    case True
    then consider c0 where "x = [c0]" | c0 c1 where "x = [c0, c1]"
      using ne by (cases x; cases "tl x"; cases "tl (tl x)"; auto)
    then show ?thesis
    proof cases
      case 1
      then show ?thesis
        by (cases y; simp add: varPattern_short varPattern_Cons3; simp add: varPattern_def)
    next
      case 2
      then show ?thesis
        by (simp add: varPattern_short varPattern_Cons3)
    qed
  next
    case False
    then obtain c0 c1 c2 cs where x: "x = c0 # c1 # c2 # cs"
      by (cases x; cases "tl x"; cases "tl (tl x)"; auto)
    define D where "D = dropWhile isValidKeyChar cs"
    have dd: "dropWhile isValidKeyChar (cs @ DOLLAR # y) = D @ DOLLAR # y"
      unfolding D_def by (simp add: dropWhile_stop)
    have "(case D @ DOLLAR # y of
             [] \<Rightarrow> None
           | c # _ \<Rightarrow> if c = RBRACE then Some (length (takeWhile isValidKeyChar cs) + 4) else None) =
          (case D of
             [] \<Rightarrow> None
           | c # _ \<Rightarrow> if c = RBRACE then Some (length (takeWhile isValidKeyChar cs) + 4) else None)"
      by (cases D) simp_all
    then have "(case dropWhile isValidKeyChar (cs @ DOLLAR # y) of
             [] \<Rightarrow> None
           | c # _ \<Rightarrow> if c = RBRACE then Some (length (takeWhile isValidKeyChar cs) + 4) else None) =
          (case dropWhile isValidKeyChar cs of
             [] \<Rightarrow> None
           | c # _ \<Rightarrow> if c = RBRACE then Some (length (takeWhile isValidKeyChar cs) + 4) else None)"
      by (simp only: dd) (simp only: D_def)
    moreover have "takeWhile isValidKeyChar (cs @ DOLLAR # y) = takeWhile isValidKeyChar cs"
      by (simp add: takeWhile_stop)
    ultimately show ?thesis
      unfolding x append_Cons varPattern_Cons3 by (simp only:)
  qed
qed

lemma ReplaceAllStringFunc_Some:
  "re (c # cs) = Some n \<Longrightarrow> 0 < n \<Longrightarrow>
   ReplaceAllStringFunc re (c # cs) repl =
     repl (take n (c # cs)) @ ReplaceAllStringFunc re (drop n (c # cs)) repl"
  by (simp only: ReplaceAllStringFunc.simps option.case if_True)

lemma ReplaceAllStringFunc_None:
  "re (c # cs) = None \<Longrightarrow>
   ReplaceAllStringFunc re (c # cs) repl = c # ReplaceAllStringFunc re cs repl"
  by (simp only: ReplaceAllStringFunc.simps option.case)

lemma ReplaceAllStringFunc_split:
  assumes stop: "\<And>x y. x \<noteq> [] \<Longrightarrow> re (x @ DOLLAR # y) = re x"
    and le: "\<And>x n. re x = Some n \<Longrightarrow> 0 < n \<and> n \<le> length x"
  shows "ReplaceAllStringFunc re (x @ DOLLAR # y) repl =
         ReplaceAllStringFunc re x repl @ ReplaceAllStringFunc re (DOLLAR # y) repl"
proof (induction "length x" arbitrary: x rule: less_induct)
  case less
  show ?case
  proof (cases x)
    case Nil
    then show ?thesis by (simp add: ReplaceAllStringFunc.simps(1))
  next
    case (Cons c cs)
    have r: "re (x @ DOLLAR # y) = re x" using stop Cons by blast
    obtain z where z: "x @ DOLLAR # y = c # z" and zz: "z = cs @ DOLLAR # y"
      using Cons by simp
    show ?thesis
    proof (cases "re x")
      case None
      have ih: "ReplaceAllStringFunc re (cs @ DOLLAR # y) repl =
          ReplaceAllStringFunc re cs repl @ ReplaceAllStringFunc re (DOLLAR # y) repl"
        using less [of cs] Cons by simp
      have a: "ReplaceAllStringFunc re (c # z) repl = c # ReplaceAllStringFunc re z repl"
        using None r z by (intro ReplaceAllStringFunc_None) simp
      have b: "ReplaceAllStringFunc re (c # cs) repl = c # ReplaceAllStringFunc re cs repl"
        using None Cons by (intro ReplaceAllStringFunc_None) simp
      have "ReplaceAllStringFunc re (x @ DOLLAR # y) repl = c # ReplaceAllStringFunc re z repl"
        using a by (simp only: z)
      also have "\<dots> = c # ReplaceAllStringFunc re cs repl @ ReplaceAllStringFunc re (DOLLAR # y) repl"
        using ih by (simp only: zz)
      also have "\<dots> = ReplaceAllStringFunc re x repl @ ReplaceAllStringFunc re (DOLLAR # y) repl"
        using b by (simp only: Cons append_Cons)
      finally show ?thesis .
    next
      case (Some n)
      then have n: "0 < n" "n \<le> length x" using le by blast+
      have ih: "ReplaceAllStringFunc re (drop n x @ DOLLAR # y) repl =
          ReplaceAllStringFunc re (drop n x) repl @ ReplaceAllStringFunc re (DOLLAR # y) repl"
        using less [of "drop n x"] Cons n by simp
      have a: "ReplaceAllStringFunc re (c # z) repl =
          repl (take n (c # z)) @ ReplaceAllStringFunc re (drop n (c # z)) repl"
        using Some r z n(1) by (intro ReplaceAllStringFunc_Some) simp_all
      have b: "ReplaceAllStringFunc re (c # cs) repl =
          repl (take n (c # cs)) @ ReplaceAllStringFunc re (drop n (c # cs)) repl"
        using Some Cons n(1) by (intro ReplaceAllStringFunc_Some) simp_all
      have t: "take n (c # z) = take n x" and d: "drop n (c # z) = drop n x @ DOLLAR # y"
        using n(2) z [symmetric] by simp_all
      have "ReplaceAllStringFunc re (x @ DOLLAR # y) repl =
          repl (take n x) @ ReplaceAllStringFunc re (drop n x @ DOLLAR # y) repl"
        using a by (simp only: z t d)
      also have "\<dots> = repl (take n x) @ ReplaceAllStringFunc re (drop n x) repl @
          ReplaceAllStringFunc re (DOLLAR # y) repl"
        by (simp only: ih)
      also have "\<dots> = ReplaceAllStringFunc re x repl @ ReplaceAllStringFunc re (DOLLAR # y) repl"
        using b by (simp only: Cons append_assoc)
      finally show ?thesis .
    qed
  qed
qed

lemma ReplaceAllStringFunc_no_DOLLAR:
  assumes "\<And>c cs. c \<noteq> DOLLAR \<Longrightarrow> re (c # cs) = None"
  shows "DOLLAR \<notin> set x \<Longrightarrow> ReplaceAllStringFunc re x repl = x"
proof (induction x)
  case Nil
  show ?case by (simp add: ReplaceAllStringFunc.simps(1))
next
  case (Cons c cs)
  then have "re (c # cs) = None" using assms [of c cs] by auto
  then show ?case using Cons by (simp add: ReplaceAllStringFunc_None)
qed

lemma simplePattern_first: "c \<noteq> DOLLAR \<Longrightarrow> simplePattern (c # cs) = None"
  by (auto simp: simplePattern_def split: list.splits)

lemma varPattern_first: "c \<noteq> DOLLAR \<Longrightarrow> varPattern (c # cs) = None"
  by (auto simp: varPattern_def split: list.splits)

lemma simplePattern_name:
  assumes "isKeyName name" and "post = [] \<or> \<not> isValidKeyChar (hd post)"
  shows "simplePattern (DOLLAR # name @ post) = Some (length name + 1)"
proof -
  obtain c cs where n: "name = c # cs" using assms(1) by (auto simp: isKeyName_def neq_Nil_conv)
  have "takeWhile isValidKeyChar (cs @ post) = cs"
    using assms n by (intro takeWhile_all) (auto simp: isKeyName_def)
  then show ?thesis using assms(1) n by (simp add: simplePattern_def isKeyName_def)
qed

lemma varPattern_name:
  assumes "isKeyName name"
  shows "varPattern (DOLLAR # LBRACE # name @ RBRACE # post) = Some (length name + 3)"
proof -
  obtain c cs where n: "name = c # cs" using assms(1) by (auto simp: isKeyName_def neq_Nil_conv)
  have nk: "\<not> isValidKeyChar RBRACE"
    by (simp add: isValidKeyChar_def less_eq_char_def)
  have "takeWhile isValidKeyChar (cs @ RBRACE # post) = cs"
    using assms n nk by (intro takeWhile_all) (auto simp: isKeyName_def)
  then show ?thesis using assms(1) n by (simp add: varPattern_def isKeyName_def Let_def)
qed

lemma expandVariables_simple_split:
  "expandVariables_simple (pre @ DOLLAR # y) env =
   expandVariables_simple pre env @ expandVariables_simple (DOLLAR # y) env"
  unfolding expandVariables_simple_def
  by (rule ReplaceAllStringFunc_split) (simp_all add: simplePattern_stop simplePattern_le)

lemma expandVariables_braced_split:
  "expandVariables_braced (pre @ DOLLAR # y) env =
   expandVariables_braced pre env @ expandVariables_braced (DOLLAR # y) env"
  unfolding expandVariables_braced_def
  by (rule ReplaceAllStringFunc_split) (simp_all add: varPattern_stop varPattern_le)

lemma expandVariables_simple_name:
  assumes "isKeyName name" and "post = [] \<or> \<not> isValidKeyChar (hd post)"
  shows "expandVariables_simple (DOLLAR # name @ post) env =
         (case env name of Some val \<Rightarrow> val | None \<Rightarrow> DOLLAR # name) @
         expandVariables_simple post env"
proof -
  have "ReplaceAllStringFunc simplePattern (DOLLAR # name @ post) repl =
      repl (take (length name + 1) (DOLLAR # name @ post)) @
      ReplaceAllStringFunc simplePattern (drop (length name + 1) (DOLLAR # name @ post)) repl"
    for repl
    by (rule ReplaceAllStringFunc_Some) (simp_all add: simplePattern_name [OF assms])
  then show ?thesis
    by (simp add: expandVariables_simple_def)
qed

lemma expandVariables_braced_name:
  assumes "isKeyName name"
  shows "expandVariables_braced (DOLLAR # LBRACE # name @ RBRACE # post) env =
         (case env name of Some val \<Rightarrow> val | None \<Rightarrow> DOLLAR # LBRACE # name @ [RBRACE]) @
         expandVariables_braced post env"
proof -
  have "ReplaceAllStringFunc varPattern (DOLLAR # LBRACE # name @ RBRACE # post) repl =
      repl (take (length name + 3) (DOLLAR # LBRACE # name @ RBRACE # post)) @
      ReplaceAllStringFunc varPattern
        (drop (length name + 3) (DOLLAR # LBRACE # name @ RBRACE # post)) repl"
    for repl
    by (rule ReplaceAllStringFunc_Some) (simp_all add: varPattern_name [OF assms])
  moreover have "take (length name + 3) (DOLLAR # LBRACE # name @ RBRACE # post) =
      DOLLAR # LBRACE # name @ [RBRACE]"
    by (simp add: numeral_3_eq_3)
  moreover have "drop (length name + 3) (DOLLAR # LBRACE # name @ RBRACE # post) = post"
    by (simp add: numeral_3_eq_3)
  moreover have "slice (DOLLAR # LBRACE # name @ [RBRACE]) 2
      (length (DOLLAR # LBRACE # name @ [RBRACE]) - 1) = name"
    by (simp add: slice_def numeral_2_eq_2)
  ultimately show ?thesis
    by (simp add: expandVariables_braced_def Let_def)
qed

lemma expandVariables_simple_id: "DOLLAR \<notin> set x \<Longrightarrow> expandVariables_simple x env = x"
  unfolding expandVariables_simple_def
  by (rule ReplaceAllStringFunc_no_DOLLAR) (simp_all add: simplePattern_first)

lemma expandVariables_braced_id: "DOLLAR \<notin> set x \<Longrightarrow> expandVariables_braced x env = x"
  unfolding expandVariables_braced_def
  by (rule ReplaceAllStringFunc_no_DOLLAR) (simp_all add: varPattern_first)

lemma isKeyName_no_DOLLAR: "isKeyName name \<Longrightarrow> DOLLAR \<notin> set name"
  by (auto simp: isKeyName_def list_all_iff)

lemma expandVariables_braced_bare:
  assumes "isKeyName name"
  shows "expandVariables_braced (DOLLAR # name) env = DOLLAR # name"
proof -
  obtain c cs where n: "name = c # cs" using assms by (auto simp: isKeyName_def neq_Nil_conv)
  have "c \<noteq> LBRACE"
    using assms n by (auto simp: isKeyName_def isValidKeyStart_def less_eq_char_def)
  then have "varPattern (DOLLAR # name) = None"
    using n by (auto simp: varPattern_def split: list.splits)
  then have "expandVariables_braced (DOLLAR # name) env = DOLLAR # expandVariables_braced name env"
    by (simp add: expandVariables_braced_def ReplaceAllStringFunc_None)
  then show ?thesis
    using isKeyName_no_DOLLAR [OF assms] by (simp add: expandVariables_braced_id)
qed

text \<open>
  C1, as the code has it: each of the two passes inserts a resolved value as it is and
  goes on behind the reference, so a pass never scans what it substituted. The pass over
  the bare references runs on the result of the pass over the braced ones, though: the
  value substituted for \<open>${NAME}\<close> is scanned once more, for bare \<open>$NAME\<close> references, while
  the value substituted for a bare \<open>$NAME\<close> is never scanned again.
\<close>

theorem expansion_passes:
  assumes "isKeyName name" and "env name = Some v"
  shows "expandVariables_braced (pre @ ''${'' @ name @ ''}'' @ post) env =
           expandVariables_braced pre env @ v @ expandVariables_braced post env \<and>
         (post = [] \<or> \<not> isValidKeyChar (hd post) \<longrightarrow>
            expandVariables_simple (pre @ ''$'' @ name @ post) env =
              expandVariables_simple pre env @ v @ expandVariables_simple post env) \<and>
         expandVariables (''$'' @ name) env = v \<and>
         expandVariables (''${'' @ name @ ''}'') env = expandVariables_simple v env"
proof (intro conjI impI)
  show "expandVariables_braced (pre @ ''${'' @ name @ ''}'' @ post) env =
      expandVariables_braced pre env @ v @ expandVariables_braced post env"
    using expandVariables_braced_split [of pre "LBRACE # name @ RBRACE # post" env]
      expandVariables_braced_name [OF assms(1), of post env] assms(2)
    by simp
  show "expandVariables_simple (pre @ ''$'' @ name @ post) env =
      expandVariables_simple pre env @ v @ expandVariables_simple post env"
    if "post = [] \<or> \<not> isValidKeyChar (hd post)"
    using expandVariables_simple_split [of pre "name @ post" env]
      expandVariables_simple_name [OF assms(1) that, of env] assms(2)
    by simp
  have e: "expandVariables_simple [] env = []"
    by (simp add: expandVariables_simple_id)
  show "expandVariables (''$'' @ name) env = v"
    using expandVariables_braced_bare [OF assms(1), of env]
      expandVariables_simple_name [OF assms(1), of "[]" env] assms(2) e
    by (simp add: expandVariables_def)
  have b: "expandVariables_braced [] env = []"
    by (simp add: expandVariables_braced_id)
  show "expandVariables (''${'' @ name @ ''}'') env = expandVariables_simple v env"
    using expandVariables_braced_name [OF assms(1), of "[]" env] assms(2) b
    by (simp add: expandVariables_def)
qed

theorem expansion_passes_witness:
  "isKeyName ''B'' \<and>
   (Map.empty(''B'' \<mapsto> ''$A'', ''A'' \<mapsto> ''x'')) ''B'' = Some ''$A'' \<and>
   expandVariables ''$B'' (Map.empty(''B'' \<mapsto> ''$A'', ''A'' \<mapsto> ''x'')) = ''$A'' \<and>
   expandVariables ''${B}'' (Map.empty(''B'' \<mapsto> ''$A'', ''A'' \<mapsto> ''x'')) = ''x'' \<and>
   expandVariables_simple ''-$B.'' (Map.empty(''B'' \<mapsto> ''$A'', ''A'' \<mapsto> ''x'')) = ''-$A.''"
proof -
  let ?env = "Map.empty(''B'' \<mapsto> ''$A'', ''A'' \<mapsto> ''x'')"
  have k: "isKeyName ''B''"
    by (simp add: isKeyName_def isValidKeyStart_def isValidKeyChar_def less_eq_char_def)
  have v: "?env ''B'' = Some ''$A''" by simp
  have s: "expandVariables_simple ''$A'' ?env = ''x''" by (simp add: run_simps)
  have m: "expandVariables_simple ''-'' ?env = ''-''" by (simp add: run_simps)
  have d: "expandVariables_simple ''.'' ?env = ''.''" by (simp add: run_simps)
  have n: "\<not> isValidKeyChar (hd ''.'')" by (simp add: isValidKeyChar_def less_eq_char_def)
  show ?thesis
    using expansion_passes [of "''B''" ?env "''$A''" "''-''" "''.''"] k s m d n by simp
qed

theorem expansion_rescans_braced_value:
  "expandVariables ''${B}'' (Map.empty(''B'' \<mapsto> ''$A'', ''A'' \<mapsto> ''x'')) = ''x'' \<and>
   expandVariables ''${B}'' (Map.empty(''B'' \<mapsto> ''$A'', ''A'' \<mapsto> ''x'')) \<noteq> ''$A''"
  by (simp add: run_simps)

lemma follows_line_end:
  "follows t t' \<Longrightarrow> rest t' = [] \<Longrightarrow> line t' = line t + count_list (rest t) LF"
  by (simp add: follows_def)

text \<open>
  Both errors of \<open>parseQuotedValue\<close> are raised at the end of the input and report the
  line the tokenizer has reached there.
\<close>

lemma parseQuotedValue_loop_follows:
  assumes "wfTok t"
  shows "follows t (snd (parseQuotedValue_loop q acc t)) \<and>
         (\<forall>e. fst (parseQuotedValue_loop q acc t) = Inl e \<longrightarrow>
            rest (snd (parseQuotedValue_loop q acc t)) = [] \<and>
            errorLine e = line (snd (parseQuotedValue_loop q acc t)))"
  using assms
proof (induction q acc t rule: parseQuotedValue_loop.induct)
  case (1 quote result t)
  note wf = \<open>wfTok t\<close>
  let ?t1 = "snd (advance t)"
  let ?t2 = "snd (advance ?t1)"
  show ?case
  proof (cases "rest t")
    case Nil
    then have "parseQuotedValue_loop quote result t = (Inl (UnterminatedString (line t)), t)"
      using wf by (subst parseQuotedValue_loop.simps) (simp add: inb_rest)
    then show ?thesis using Nil wf by (simp add: follows_refl)
  next
    case (Cons c cs)
    have inb: "pos t < length_t t" using wf Cons by (simp add: inb_rest)
    have pk: "peek t = c" using peek_Cons [OF wf Cons] .
    have f1: "follows t ?t1" and r1: "rest ?t1 = cs" and a1: "fst (advance t) = c"
      using advance_Cons [OF wf Cons] by simp_all
    have w1: "wfTok ?t1" using f1 by (rule follows_wf)
    show ?thesis
    proof (cases "c = quote")
      case True
      then have "parseQuotedValue_loop quote result t = (Inr result, ?t1)"
        using inb pk by (subst parseQuotedValue_loop.simps) (simp add: Let_def)
      then show ?thesis using f1 by simp
    next
      case nq: False
      show ?thesis
      proof (cases "c = BSLASH \<and> quote = DQUOTE")
        case esc: True
        show ?thesis
        proof (cases cs)
          case Nil
          have eof1: "pos ?t1 \<ge> length_t ?t1"
            using inb_rest [OF w1] r1 Nil by simp
          have "parseQuotedValue_loop quote result t =
              (Inl (UnexpectedEOFAfterEscape (line ?t1)), ?t1)"
            using inb pk nq esc eof1
            by (subst parseQuotedValue_loop.simps) (simp add: Let_def)
          then show ?thesis using f1 r1 Nil by simp
        next
          case (Cons d ds)
          have inb1: "\<not> pos ?t1 \<ge> length_t ?t1"
            using w1 r1 Cons by (simp add: inb_rest not_le)
          have f2: "follows ?t1 ?t2"
            using advance_Cons [OF w1] r1 Cons by simp
          have e: "parseQuotedValue_loop quote result t =
              parseQuotedValue_loop quote (result @ unescape (fst (advance ?t1))) ?t2"
            using inb pk nq esc inb1
            by (subst parseQuotedValue_loop.simps) (simp add: Let_def)
          have pk': "peek t \<noteq> quote" "peek t = BSLASH \<and> quote = DQUOTE"
            using pk nq esc by simp_all
          have ih: "follows ?t2 (snd (parseQuotedValue_loop quote
                (result @ unescape (fst (advance ?t1))) ?t2)) \<and>
              (\<forall>e. fst (parseQuotedValue_loop quote
                  (result @ unescape (fst (advance ?t1))) ?t2) = Inl e \<longrightarrow>
                rest (snd (parseQuotedValue_loop quote
                  (result @ unescape (fst (advance ?t1))) ?t2)) = [] \<and>
                errorLine e = line (snd (parseQuotedValue_loop quote
                  (result @ unescape (fst (advance ?t1))) ?t2)))"
            using 1(1) [OF inb refl pk'(1) pk'(2) refl inb1] f2 follows_wf by blast
          show ?thesis
            unfolding e using ih f1 f2 follows_trans by blast
        qed
      next
        case False
        have e: "parseQuotedValue_loop quote result t =
            parseQuotedValue_loop quote (result @ [fst (advance t)]) ?t1"
          using inb pk nq False by (subst parseQuotedValue_loop.simps) (auto simp: Let_def)
        have pk': "peek t \<noteq> quote" "\<not> (peek t = BSLASH \<and> quote = DQUOTE)"
          using pk nq False by simp_all
        have ih: "follows ?t1 (snd (parseQuotedValue_loop quote (result @ [fst (advance t)]) ?t1)) \<and>
            (\<forall>e. fst (parseQuotedValue_loop quote (result @ [fst (advance t)]) ?t1) = Inl e \<longrightarrow>
              rest (snd (parseQuotedValue_loop quote (result @ [fst (advance t)]) ?t1)) = [] \<and>
              errorLine e = line (snd (parseQuotedValue_loop quote (result @ [fst (advance t)]) ?t1)))"
          using 1(2) [OF inb refl pk'(1) pk'(2)] w1 by blast
        show ?thesis
          unfolding e using ih f1 follows_trans by blast
      qed
    qed
  qed
qed

lemma parseQuotedValue_follows:
  assumes "wfTok t"
  shows "follows t (snd (parseQuotedValue q t)) \<and>
         (\<forall>e. fst (parseQuotedValue q t) = Inl e \<longrightarrow>
            errorLine e = line t + count_list (rest t) LF)"
proof -
  let ?t1 = "snd (advance t)"
  have f1: "follows t ?t1"
  proof (cases "rest t")
    case Nil
    then show ?thesis using assms by (simp add: advance_Nil follows_refl)
  next
    case (Cons c cs)
    then show ?thesis using advance_Cons [OF assms] by simp
  qed
  have w1: "wfTok ?t1" using f1 by (rule follows_wf)
  note l = parseQuotedValue_loop_follows [OF w1, of q "[]"]
  have f: "follows t (snd (parseQuotedValue q t))"
    using l f1 follows_trans by (auto simp: parseQuotedValue_def)
  moreover have "errorLine e = line t + count_list (rest t) LF"
    if "fst (parseQuotedValue q t) = Inl e" for e
  proof -
    have "rest (snd (parseQuotedValue q t)) = []"
      and "errorLine e = line (snd (parseQuotedValue q t))"
      using l that by (auto simp: parseQuotedValue_def)
    then show ?thesis using follows_line_end [OF f] by simp
  qed
  ultimately show ?thesis by blast
qed

text \<open>A quoted value without escapes: the bytes up to the closing quote, as they are.\<close>

lemma parseQuotedValue_loop_plain:
  assumes "wfTok t" and "rest t = body @ q # after" and "q \<notin> set body"
    and "q \<noteq> DQUOTE \<or> BSLASH \<notin> set body"
  shows "fst (parseQuotedValue_loop q acc t) = Inr (acc @ body) \<and>
         rest (snd (parseQuotedValue_loop q acc t)) = after"
  using assms
proof (induction body arbitrary: t acc)
  case Nil
  then have r: "rest t = q # after" by simp
  have inb: "pos t < length_t t" using Nil(1) r by (simp add: inb_rest)
  have pk: "peek t = q" using peek_Cons [OF Nil(1) r] .
  have "parseQuotedValue_loop q acc t = (Inr acc, snd (advance t))"
    using inb pk by (subst parseQuotedValue_loop.simps) (simp add: Let_def)
  then show ?case using advance_Cons [OF Nil(1) r] by simp
next
  case (Cons c cs)
  then have r: "rest t = c # (cs @ q # after)" by simp
  have inb: "pos t < length_t t" using Cons(2) r by (simp add: inb_rest)
  have pk: "peek t = c" using peek_Cons [OF Cons(2) r] .
  have nq: "c \<noteq> q" and ne: "\<not> (c = BSLASH \<and> q = DQUOTE)" using Cons(4,5) by auto
  have a: "fst (advance t) = c" "rest (snd (advance t)) = cs @ q # after"
    "wfTok (snd (advance t))"
    using advance_Cons [OF Cons(2) r] follows_wf by auto
  have e: "parseQuotedValue_loop q acc t = parseQuotedValue_loop q (acc @ [c]) (snd (advance t))"
    using inb pk nq ne a(1) by (subst parseQuotedValue_loop.simps) (auto simp: Let_def)
  show ?case
    unfolding e using Cons(1) [OF a(3) a(2), of "acc @ [c]"] Cons(4,5) by auto
qed

lemma skipWhitespace_id:
  assumes "wfTok t" and "rest t = [] \<or> (hd (rest t) \<noteq> SPC \<and> hd (rest t) \<noteq> TAB)"
  shows "skipWhitespace t = t"
proof (cases "rest t")
  case Nil
  then show ?thesis using assms(1) by (subst skipWhitespace.simps) (simp add: inb_rest)
next
  case (Cons c cs)
  then have "peek t = c" using peek_Cons [OF assms(1)] by simp
  then show ?thesis using assms(2) Cons by (subst skipWhitespace.simps) simp
qed

lemma ParseLine_finish_fst:
  "fst (ParseLine_finish k v a t) = \<lparr>Key = k, Value = v, AllowExpansion = a, Error = None\<rparr>"
  by (simp add: ParseLine_finish_def Let_def)

lemma ParseLine_finish_follows:
  assumes "wfTok t"
  shows "follows t (snd (ParseLine_finish k v a t))"
proof -
  have a: "follows t (skipWhitespace t)" using skipWhitespace_rest [OF assms] by simp
  then have "follows (skipWhitespace t) (skipToNextLine (skipWhitespace t))"
    using skipToNextLine_rest follows_wf by blast
  then show ?thesis
    using a follows_trans by (auto simp: ParseLine_finish_def Let_def)
qed

lemma ParseLine_finish_stop:
  assumes "wfTok t"
    and "rest t = [] \<or> (hd (rest t) \<noteq> SPC \<and> hd (rest t) \<noteq> TAB \<and> hd (rest t) \<noteq> HASH)"
  shows "snd (ParseLine_finish k v a t) = t"
proof -
  have s: "skipWhitespace t = t" using assms by (intro skipWhitespace_id) auto
  have "\<not> (pos t < length_t t \<and> peek t = HASH)"
  proof (cases "rest t")
    case Nil
    then show ?thesis using assms(1) by (simp add: inb_rest)
  next
    case (Cons c cs)
    then have "peek t = c" using peek_Cons [OF assms(1)] by simp
    then show ?thesis using assms(2) Cons by simp
  qed
  then show ?thesis using s by (auto simp: ParseLine_finish_def Let_def)
qed

text \<open>The part of \<open>ParseLine\<close> that reads the value, from the tokenizer behind \<open>=\<close> and
  the whitespace that follows it.\<close>

definition ParseLine_value :: "string \<Rightarrow> Tokenizer \<Rightarrow> LineResult \<times> Tokenizer" where
  "ParseLine_value key t6 =
     (let ch = peek t6
      in if ch = DQUOTE then
           (case parseQuotedValue DQUOTE t6 of
              (Inl err, t7) \<Rightarrow> (errorResult err, t7)
            | (Inr value, t7) \<Rightarrow> ParseLine_finish key value True t7)
         else if ch = SQUOTE then
           (case parseQuotedValue SQUOTE t6 of
              (Inl err, t7) \<Rightarrow> (errorResult err, t7)
            | (Inr value, t7) \<Rightarrow> ParseLine_finish key value False t7)
         else
           (case parseUnquotedValue t6 of
              ((value, hasComment), t7) \<Rightarrow>
                ParseLine_finish key value True
                  (if hasComment then skipToNextLine t7 else t7)))"

lemma isKeyName_takeWhile:
  assumes "isKeyName key" and "ys = [] \<or> \<not> isValidKeyChar (hd ys)"
  shows "takeWhile isValidKeyChar (key @ ys) = key" "dropWhile isValidKeyChar (key @ ys) = ys"
  using assms by (simp_all add: isKeyName_def takeWhile_all dropWhile_all)

lemma not_key_misc [simp]:
  "\<not> isValidKeyChar SPC" "\<not> isValidKeyChar TAB" "\<not> isValidKeyChar EQUALS"
  "\<not> isValidKeyChar LF" "\<not> isValidKeyChar CR" "\<not> isValidKeyChar HASH"
  by (simp_all add: isValidKeyChar_def less_eq_char_def)

lemma HasPrefix_export:
  assumes "isKeyName key" and "list_all (\<lambda>c. c = SPC \<or> c = TAB) ws2"
    and "key \<noteq> ''export'' \<or> ws2 = []"
  shows "\<not> HasPrefix (key @ ws2 @ EQUALS # after) ''export ''"
proof
  assume "HasPrefix (key @ ws2 @ EQUALS # after) ''export ''"
  then obtain z where z: "key @ ws2 @ EQUALS # after = ''export '' @ z"
    unfolding HasPrefix_def by (metis append_take_drop_id)
  have nk: "ws2 @ EQUALS # after = [] \<or> \<not> isValidKeyChar (hd (ws2 @ EQUALS # after))"
    using assms(2) by (cases ws2) auto
  have "takeWhile isValidKeyChar (key @ ws2 @ EQUALS # after) = key"
    and d: "dropWhile isValidKeyChar (key @ ws2 @ EQUALS # after) = ws2 @ EQUALS # after"
    using isKeyName_takeWhile [OF assms(1) nk] by simp_all
  moreover have "takeWhile isValidKeyChar (''export '' @ z) = ''export''"
    and "dropWhile isValidKeyChar (''export '' @ z) = CHR '' '' # z"
    by (simp_all add: isValidKeyChar_def less_eq_char_def)
  ultimately have k: "key = ''export''" and w: "ws2 @ EQUALS # after = CHR '' '' # z"
    using z by simp_all
  from w have "ws2 \<noteq> []" by (cases ws2) auto
  with k assms(3) show False by simp
qed

lemma ParseLine_assignment:
  assumes wf: "wfTok t"
    and r: "rest t = ws1 @ key @ ws2 @ EQUALS # after"
    and ws1: "list_all (\<lambda>c. c = SPC \<or> c = TAB) ws1"
    and ws2: "list_all (\<lambda>c. c = SPC \<or> c = TAB) ws2"
    and key: "isKeyName key"
    and ex: "key \<noteq> ''export'' \<or> ws2 = []"
  shows "\<exists>t6. follows t t6 \<and> rest t6 = dropWhile (\<lambda>c. c = SPC \<or> c = TAB) after \<and>
              ParseLine t = ParseLine_value key t6"
proof -
  obtain k ks where kk: "key = k # ks" and ks: "isValidKeyStart k"
    using key by (cases key) (auto simp: isKeyName_def)
  have knw: "k \<noteq> SPC" "k \<noteq> TAB" "k \<noteq> LF" "k \<noteq> CR" "k \<noteq> HASH"
    using ks by (auto simp: isValidKeyStart_def less_eq_char_def)
  let ?t1 = "skipWhitespace t"
  have f1: "follows t ?t1" and r1: "rest ?t1 = key @ ws2 @ EQUALS # after"
    using skipWhitespace_rest [OF wf] r ws1 kk knw by (simp_all add: dropWhile_all)
  have w1: "wfTok ?t1" using f1 by (rule follows_wf)
  have inb1: "pos ?t1 < length_t ?t1" using w1 r1 kk by (simp add: inb_rest)
  have pk1: "peek ?t1 = k" using peek_Cons [OF w1] r1 kk by simp
  have nex: "\<not> HasPrefix (drop (pos ?t1) (content ?t1)) ''export ''"
    using HasPrefix_export [OF key ws2 ex] r1 by (simp add: rest_def)
  have nk: "ws2 @ EQUALS # after = [] \<or> \<not> isValidKeyChar (hd (ws2 @ EQUALS # after))"
    using ws2 by (cases ws2) auto
  let ?t3 = "parseKey_loop ?t1"
  have pk: "parseKey ?t1 = (Inr key, ?t3)"
    using parseKey_rest [OF w1] r1 kk ks isKeyName_takeWhile(1) [OF key nk] by simp
  have f3: "follows ?t1 ?t3" and r3: "rest ?t3 = ws2 @ EQUALS # after"
    using parseKey_loop_rest [OF w1] r1 isKeyName_takeWhile(2) [OF key nk] by simp_all
  have w3: "wfTok ?t3" using f3 by (rule follows_wf)
  let ?t4 = "skipWhitespace ?t3"
  have f4: "follows ?t3 ?t4" and r4: "rest ?t4 = EQUALS # after"
    using skipWhitespace_rest [OF w3] r3 ws2 by (simp_all add: dropWhile_all)
  have w4: "wfTok ?t4" using f4 by (rule follows_wf)
  have pk4: "peek ?t4 = EQUALS" using peek_Cons [OF w4 r4] .
  let ?t5 = "snd (advance ?t4)"
  have f5: "follows ?t4 ?t5" and r5: "rest ?t5 = after"
    using advance_Cons [OF w4 r4] by simp_all
  have w5: "wfTok ?t5" using f5 by (rule follows_wf)
  let ?t6 = "skipWhitespace ?t5"
  have f6: "follows ?t5 ?t6" and r6: "rest ?t6 = dropWhile (\<lambda>c. c = SPC \<or> c = TAB) after"
    using skipWhitespace_rest [OF w5] r5 by simp_all
  have "follows t ?t6"
    using f1 f3 f4 f5 f6 follows_trans by blast
  moreover have "ParseLine t = ParseLine_value key ?t6"
    using inb1 pk1 knw nex pk kk pk4
    by (simp add: ParseLine_def ParseLine_value_def Let_def)
  ultimately show ?thesis using r6 by blast
qed

end
